theory Spec2Isabelle
  imports Main "HOL-Library.AList"
begin

section \<open>JavaScript strings and values\<close>

text \<open>
  Strings are lists of 8-bit characters (code units below 256).  The white-space class of
  \<^verbatim>\<open>String.prototype.trim\<close> and of the regular-expression escape \<^verbatim>\<open>\s\<close> is, on these code
  units, TAB, LF, VT, FF, CR, SPACE and NBSP; the line terminators (which \<^verbatim>\<open>.\<close> does not
  match) are LF and CR.
\<close>

definition isLineTerminator :: "char \<Rightarrow> bool" where
  "isLineTerminator c \<longleftrightarrow> c = CHR 0x0A \<or> c = CHR 0x0D"

definition isWhiteSpace :: "char \<Rightarrow> bool" where
  "isWhiteSpace c \<longleftrightarrow>
     c = CHR 0x09 \<or> c = CHR 0x0A \<or> c = CHR 0x0B \<or> c = CHR 0x0C \<or> c = CHR 0x0D \<or>
     c = CHR 0x20 \<or> c = CHR 0xA0"

definition trim :: "string \<Rightarrow> string" where
  "trim s = rev (dropWhile isWhiteSpace (rev (dropWhile isWhiteSpace s)))"

text \<open>\<^verbatim>\<open>path.split('.')\<close>: always at least one segment; the empty string gives one empty segment.\<close>

fun split_dot :: "string \<Rightarrow> string list" where
  "split_dot [] = [[]]"
| "split_dot (c # cs) =
     (let ps = split_dot cs in if c = CHR ''.'' then [] # ps else (c # hd ps) # tl ps)"

text \<open>
  A thrown value: an \<^verbatim>\<open>Error\<close> object with its message, or anything else with the string
  \<^verbatim>\<open>String(error)\<close> gives for it.
\<close>

datatype js_error = ErrorObject string | Thrown string


text \<open>
  The values a path can reach.  The payload tree is what \<^verbatim>\<open>JSON.parse\<close> produces, plus
  \<^verbatim>\<open>undefined\<close>: numbers are kept abstract (type \<open>'n\<close>, IEEE doubles in the program), and an
  object is the list of its own properties in insertion order, each key once.  Property reads
  follow the prototype chain, so the two prototype objects behind the tree,
  \<^verbatim>\<open>Object.prototype\<close> and \<^verbatim>\<open>Array.prototype\<close>, and their built-in functions (by name) are values too.
\<close>

datatype 'n jsvalue =
    JUndefined
  | JNull
  | JBool bool
  | JNum 'n
  | JStr string
  | JArr "'n jsvalue list"
  | JObj "(string \<times> 'n jsvalue) list"
  | JFunction string
  | JObjectPrototype
  | JArrayPrototype

text \<open>
  What the model takes from the JavaScript engine as parameters: \<^verbatim>\<open>Number(s)\<close> and \<^verbatim>\<open>isNaN(x)\<close>;
  the outcome of \<^verbatim>\<open>x == y\<close> when no conversion throws (\<open>looseEq\<close>); the double of a natural
  number (for lengths); the names of the function-valued members of \<^verbatim>\<open>Object.prototype\<close> and of
  \<^verbatim>\<open>Array.prototype\<close>, which vary with the engine's version (\<^verbatim>\<open>constructor\<close>, \<^verbatim>\<open>toString\<close>, ...); and
  the members a primitive or a function gives for a key, other than the length and the
  characters of a string.
\<close>

record 'n js_runtime =
  Number :: "string \<Rightarrow> 'n"
  isNaN :: "'n \<Rightarrow> bool"
  looseEq :: "'n jsvalue \<Rightarrow> 'n jsvalue \<Rightarrow> bool"
  fromNat :: "nat \<Rightarrow> 'n"
  objectPrototypeMembers :: "string list"
  arrayPrototypeMembers :: "string list"
  primitiveMember :: "'n jsvalue \<Rightarrow> string \<Rightarrow> 'n jsvalue"

fun typeof :: "'n jsvalue \<Rightarrow> string" where
  "typeof JUndefined = ''undefined''"
| "typeof JNull = ''object''"
| "typeof (JBool b) = ''boolean''"
| "typeof (JNum n) = ''number''"
| "typeof (JStr s) = ''string''"
| "typeof (JArr xs) = ''object''"
| "typeof (JObj kvs) = ''object''"
| "typeof (JFunction f) = ''function''"
| "typeof JObjectPrototype = ''object''"
| "typeof JArrayPrototype = ''object''"

text \<open>
  A composite value: one whose \<^verbatim>\<open>typeof\<close> is \<^verbatim>\<open>'object'\<close> and that is not \<^verbatim>\<open>null\<close>.
\<close>

fun composite :: "'n jsvalue \<Rightarrow> bool" where
  "composite (JArr xs) = True"
| "composite (JObj kvs) = True"
| "composite JObjectPrototype = True"
| "composite JArrayPrototype = True"
| "composite v = False"

text \<open>
  An array index in canonical form: decimal digits without a leading zero (\<^verbatim>\<open>"0"\<close> itself
  apart).  Any other key of an array or a string is not an element.
\<close>

definition digit_val :: "char \<Rightarrow> nat" where
  "digit_val c = of_char c - of_char CHR ''0''"

definition is_digit :: "char \<Rightarrow> bool" where
  "is_digit c \<longleftrightarrow> of_char CHR ''0'' \<le> (of_char c :: nat) \<and> (of_char c :: nat) \<le> of_char CHR ''9''"

definition digits_val :: "string \<Rightarrow> nat" where
  "digits_val ds = foldl (\<lambda>acc c. 10 * acc + digit_val c) 0 ds"

definition array_index :: "string \<Rightarrow> nat option" where
  "array_index s =
     (if s \<noteq> [] \<and> list_all is_digit s \<and> (s = ''0'' \<or> hd s \<noteq> CHR ''0'')
      then Some (digits_val s) else None)"

text \<open>
  The own properties of a value: the keys of an object; the elements and the \<^verbatim>\<open>length\<close> of an
  array; the characters and the \<^verbatim>\<open>length\<close> of a string.
\<close>

fun own_property :: "'n js_runtime \<Rightarrow> 'n jsvalue \<Rightarrow> string \<Rightarrow> 'n jsvalue option" where
  "own_property rt (JObj kvs) k = map_of kvs k"
| "own_property rt (JArr xs) k =
     (if k = ''length'' then Some (JNum (fromNat rt (length xs)))
      else case array_index k of
             Some i \<Rightarrow> (if i < length xs then Some (xs ! i) else None)
           | None \<Rightarrow> None)"
| "own_property rt (JStr s) k =
     (if k = ''length'' then Some (JNum (fromNat rt (length s)))
      else case array_index k of
             Some i \<Rightarrow> (if i < length s then Some (JStr [s ! i]) else None)
           | None \<Rightarrow> None)"
| "own_property rt v k = None"

text \<open>
  The prototype chain.  An object of the tree inherits from \<^verbatim>\<open>Object.prototype\<close>, an array from
  \<^verbatim>\<open>Array.prototype\<close> (itself an array of length 0) and then from \<^verbatim>\<open>Object.prototype\<close>, whose
  prototype is \<^verbatim>\<open>null\<close>.  \<^verbatim>\<open>__proto__\<close> is an accessor of \<^verbatim>\<open>Object.prototype\<close> that gives the
  prototype of the value it is read from.
\<close>

fun prototype_of :: "'n jsvalue \<Rightarrow> 'n jsvalue" where
  "prototype_of (JObj kvs) = JObjectPrototype"
| "prototype_of (JArr xs) = JArrayPrototype"
| "prototype_of JArrayPrototype = JObjectPrototype"
| "prototype_of v = JNull"

definition array_prototype_member :: "'n js_runtime \<Rightarrow> string \<Rightarrow> 'n jsvalue option" where
  "array_prototype_member rt k =
     (if k = ''length'' then Some (JNum (fromNat rt 0))
      else if k \<in> set (arrayPrototypeMembers rt) then Some (JFunction (''Array.prototype.'' @ k))
      else None)"

definition object_prototype_member :: "'n js_runtime \<Rightarrow> 'n jsvalue \<Rightarrow> string \<Rightarrow> 'n jsvalue option" where
  "object_prototype_member rt receiver k =
     (if k = ''__proto__'' then Some (prototype_of receiver)
      else if k \<in> set (objectPrototypeMembers rt) then Some (JFunction (''Object.prototype.'' @ k))
      else None)"

definition or_else :: "'a option \<Rightarrow> 'a option \<Rightarrow> 'a option" where
  "or_else a b = (case a of Some x \<Rightarrow> Some x | None \<Rightarrow> b)"

text \<open>The lookup of a key along the chain of a composite value; \<open>None\<close> when no object has it.\<close>

fun lookup_chain :: "'n js_runtime \<Rightarrow> 'n jsvalue \<Rightarrow> string \<Rightarrow> 'n jsvalue option" where
  "lookup_chain rt (JObj kvs) k =
     or_else (own_property rt (JObj kvs) k) (object_prototype_member rt (JObj kvs) k)"
| "lookup_chain rt (JArr xs) k =
     or_else (own_property rt (JArr xs) k)
       (or_else (array_prototype_member rt k) (object_prototype_member rt (JArr xs) k))"
| "lookup_chain rt JArrayPrototype k =
     or_else (array_prototype_member rt k) (object_prototype_member rt JArrayPrototype k)"
| "lookup_chain rt JObjectPrototype k = object_prototype_member rt JObjectPrototype k"
| "lookup_chain rt v k = None"

text \<open>
  The property read \<^verbatim>\<open>v[k]\<close>.  On \<^verbatim>\<open>null\<close> and \<^verbatim>\<open>undefined\<close> it throws a TypeError; on a composite
  value it follows the chain and gives \<^verbatim>\<open>undefined\<close> when no object has the key; on a string it
  gives the length or a character, and otherwise, as on the other primitives and on
  functions, what the engine gives.
\<close>

definition getProperty :: "'n js_runtime \<Rightarrow> 'n jsvalue \<Rightarrow> string \<Rightarrow> js_error + 'n jsvalue" where
  "getProperty rt v k =
     (if v = JNull \<or> v = JUndefined then
        Inl (ErrorObject ''Cannot read properties of null or undefined'')
      else if composite v then
        Inr (case lookup_chain rt v k of Some w \<Rightarrow> w | None \<Rightarrow> JUndefined)
      else
        Inr (case own_property rt v k of Some w \<Rightarrow> w | None \<Rightarrow> primitiveMember rt v k))"

section \<open>Path resolver (matcher.ts, getNestedValue)\<close>

text \<open>
  The \<^verbatim>\<open>for (const part of parts)\<close> loop, with its two early returns before the property read.
  \<open>Inl\<close> is an exception leaving the function.
\<close>

fun walk :: "'n js_runtime \<Rightarrow> 'n jsvalue \<Rightarrow> string list \<Rightarrow> js_error + 'n jsvalue" where
  "walk rt current [] = Inr current"
| "walk rt current (part # parts) =
     (if current = JNull \<or> current = JUndefined then Inr JUndefined
      else if typeof current \<noteq> ''object'' then Inr JUndefined
      else case getProperty rt current part of
             Inl e \<Rightarrow> Inl e
           | Inr next \<Rightarrow> walk rt next parts)"

definition getNestedValue :: "'n js_runtime \<Rightarrow> 'n jsvalue \<Rightarrow> string \<Rightarrow> js_error + 'n jsvalue" where
  "getNestedValue rt obj path = walk rt obj (split_dot path)"

section \<open>Match evaluator (matcher.ts)\<close>

text \<open>
  \<^verbatim>\<open>parseLiteral\<close>: booleans, quoted strings (\<^verbatim>\<open>slice(1, -1)\<close>), numbers, and the raw token
  otherwise.  The quote characters are written by their codes (0x22 and 0x27).
\<close>

definition startsWith :: "string \<Rightarrow> char \<Rightarrow> bool" where
  "startsWith s c \<longleftrightarrow> s \<noteq> [] \<and> hd s = c"

definition endsWith :: "string \<Rightarrow> char \<Rightarrow> bool" where
  "endsWith s c \<longleftrightarrow> s \<noteq> [] \<and> last s = c"

definition parseLiteral :: "'n js_runtime \<Rightarrow> string \<Rightarrow> 'n jsvalue" where
  "parseLiteral rt value =
     (let trimmed = trim value in
      if trimmed = ''true'' then JBool True
      else if trimmed = ''false'' then JBool False
      else if (startsWith trimmed (CHR 0x22) \<and> endsWith trimmed (CHR 0x22)) \<or>
              (startsWith trimmed (CHR 0x27) \<and> endsWith trimmed (CHR 0x27))
        then JStr (drop 1 (take (length trimmed - 1) trimmed))
      else let num = Number rt trimmed in
        if \<not> isNaN rt num then JNum num else JStr trimmed)"

text \<open>
  The regular expressions \<^verbatim>\<open>/^(.+?)\s*!=\s*(.+)$/\<close> and \<^verbatim>\<open>/^(.+?)\s*==\s*(.+)$/\<close>, by the
  backtracking order of the engine.

  \<open>capture_last\<close> is \<^verbatim>\<open>\s*(.+)$\<close>: the greedy \<^verbatim>\<open>\s*\<close> takes all leading white space; the group is
  what follows, which must hold no line terminator.  When nothing follows, the engine gives
  one white-space character back, and the group is that last character.

  \<open>match_tail\<close> is \<^verbatim>\<open>\s*OP\s*(.+)$\<close>: the operator can only start where the white space ends.

  \<open>lazy_prefix\<close> grows the lazy group \<^verbatim>\<open>(.+?)\<close> one character at a time (never over a line
  terminator) until the rest matches.
\<close>

definition capture_last :: "string \<Rightarrow> string option" where
  "capture_last r =
     (let t = dropWhile isWhiteSpace r in
      if t \<noteq> [] then (if list_ex isLineTerminator t then None else Some t)
      else if r \<noteq> [] \<and> \<not> isLineTerminator (last r) then Some [last r]
      else None)"

definition match_tail :: "string \<Rightarrow> string \<Rightarrow> string option" where
  "match_tail op rest =
     (let r = dropWhile isWhiteSpace rest in
      if take (length op) r = op then capture_last (drop (length op) r) else None)"

fun lazy_prefix :: "string \<Rightarrow> string \<Rightarrow> string \<Rightarrow> (string \<times> string) option" where
  "lazy_prefix op acc [] =
     (case match_tail op [] of Some g \<Rightarrow> Some (acc, g) | None \<Rightarrow> None)"
| "lazy_prefix op acc (c # cs) =
     (case match_tail op (c # cs) of
        Some g \<Rightarrow> Some (acc, g)
      | None \<Rightarrow> if isLineTerminator c then None else lazy_prefix op (acc @ [c]) cs)"

definition regex_match :: "string \<Rightarrow> string \<Rightarrow> (string \<times> string) option" where
  "regex_match op expression =
     (case expression of
        [] \<Rightarrow> None
      | c # cs \<Rightarrow> if isLineTerminator c then None else lazy_prefix op [c] cs)"

text \<open>
  The abstract equality \<^verbatim>\<open>x == y\<close> against a literal \<open>y\<close> (a boolean, a number or a string).  An
  object operand is first converted by ToPrimitive.  For an object of the tree that calls
  \<^verbatim>\<open>valueOf\<close> (the inherited one returns the object itself; an own one is a value of the tree and
  cannot be called) and then \<^verbatim>\<open>toString\<close>: an own \<^verbatim>\<open>toString\<close> cannot be called either, and the
  conversion throws a TypeError.  An array is converted by \<^verbatim>\<open>join\<close>, which converts its elements
  the same way.  When nothing throws, the outcome is the parameter \<open>looseEq\<close>.
\<close>

fun toPrimitive_throws :: "'n jsvalue \<Rightarrow> bool" where
  "toPrimitive_throws (JObj kvs) \<longleftrightarrow> map_of kvs ''toString'' \<noteq> None"
| "toPrimitive_throws (JArr xs) \<longleftrightarrow> list_ex toPrimitive_throws xs"
| "toPrimitive_throws v \<longleftrightarrow> False"

definition looseEquals :: "'n js_runtime \<Rightarrow> 'n jsvalue \<Rightarrow> 'n jsvalue \<Rightarrow> js_error + bool" where
  "looseEquals rt x y =
     (if toPrimitive_throws x then Inl (ErrorObject ''Cannot convert object to primitive value'')
      else Inr (looseEq rt x y))"

text \<open>
  \<^verbatim>\<open>evaluateExpression\<close>: \<^verbatim>\<open>!=\<close> is tried first, then \<^verbatim>\<open>==\<close>; with neither, a warning is logged and
  the result is \<^verbatim>\<open>false\<close>.  Nothing in the function catches an exception.
\<close>

definition evaluateExpression :: "'n js_runtime \<Rightarrow> string \<Rightarrow> 'n jsvalue \<Rightarrow> js_error + bool" where
  "evaluateExpression rt expression context =
     (case regex_match ''!='' expression of
        Some (path, literalStr) \<Rightarrow>
          (case getNestedValue rt context (trim path) of
             Inl e \<Rightarrow> Inl e
           | Inr actualValue \<Rightarrow>
               (let expectedValue = parseLiteral rt literalStr
                in case looseEquals rt actualValue expectedValue of
                     Inl e \<Rightarrow> Inl e
                   | Inr eq \<Rightarrow> Inr (\<not> eq)))
      | None \<Rightarrow>
          (case regex_match ''=='' expression of
             Some (path, literalStr) \<Rightarrow>
               (case getNestedValue rt context (trim path) of
                  Inl e \<Rightarrow> Inl e
                | Inr actualValue \<Rightarrow>
                    (let expectedValue = parseLiteral rt literalStr
                     in case looseEquals rt actualValue expectedValue of
                          Inl e \<Rightarrow> Inl e
                        | Inr eq \<Rightarrow> Inr eq))
           | None \<Rightarrow> Inr False))"

text \<open>
  \<^verbatim>\<open>Array.prototype.every\<close> and \<^verbatim>\<open>Array.prototype.filter\<close> with a callback that may throw: the
  elements are visited from the left, \<^verbatim>\<open>every\<close> stops at the first \<^verbatim>\<open>false\<close>, and an exception of
  the callback leaves the call.
\<close>

fun every :: "('a \<Rightarrow> js_error + bool) \<Rightarrow> 'a list \<Rightarrow> js_error + bool" where
  "every f [] = Inr True"
| "every f (x # xs) =
     (case f x of
        Inl e \<Rightarrow> Inl e
      | Inr b \<Rightarrow> if b then every f xs else Inr False)"



text \<open>\<open>str_includes s sub\<close>: the string \<open>s\<close> contains \<open>sub\<close> (\<^verbatim>\<open>String.prototype.includes\<close>).\<close>

primrec str_includes :: "string \<Rightarrow> string \<Rightarrow> bool" where
  "str_includes [] sub \<longleftrightarrow> sub = []"
| "str_includes (c # cs) sub \<longleftrightarrow> take (length sub) (c # cs) = sub \<or> str_includes cs sub"

section \<open>Data model (types.ts)\<close>

record SpriteConfig =
  sprite_name :: string
  sprite_path :: string
  sprite_cmd :: "string option"
  sprite_workdir :: "string option"

text \<open>
  \<^verbatim>\<open>WebhookSource | CronSource\<close>.  A webhook source carries any \<^verbatim>\<open>type\<close> string and its events; a
  cron source has the fixed type \<^verbatim>\<open>'cron'\<close> and a schedule.
\<close>

datatype source = WebhookSource string "string list" | CronSource string



fun isCronSource :: "source \<Rightarrow> bool" where
  "isCronSource (CronSource sch) \<longleftrightarrow> True"
| "isCronSource (WebhookSource t evs) \<longleftrightarrow> False"


fun source_schedule :: "source \<Rightarrow> string" where
  "source_schedule (CronSource sch) = sch"
| "source_schedule (WebhookSource t evs) = []"

record Automation =
  auto_id :: string
  auto_description :: "string option"
  auto_sprite :: SpriteConfig
  auto_source :: source
  auto_match :: "string list option"
  auto_run :: string



section \<open>Source adapters (adapters/*.ts)\<close>

text \<open>
  An inbound request: its headers, keyed by the header name as the adapters spell it, and its
  raw body.  \<^verbatim>\<open>headers.get\<close> gives \<^verbatim>\<open>null\<close> (\<open>None\<close>) for a header that is not there.
\<close>

record request =
  headers :: "string \<rightharpoonup> string"
  body :: string

record 'n SourceAdapter =
  adapter_name :: string
  validate :: "request \<Rightarrow> string \<Rightarrow> bool"
  getEventType :: "request \<Rightarrow> string"
  parsePayload :: "request \<Rightarrow> js_error + 'n jsvalue"

text \<open>\<^verbatim>\<open>!x\<close> for a value that is a string or \<^verbatim>\<open>null\<close>: true for \<^verbatim>\<open>null\<close> and for the empty string.\<close>

fun falsy :: "string option \<Rightarrow> bool" where
  "falsy None \<longleftrightarrow> True"
| "falsy (Some s) \<longleftrightarrow> s = []"

text \<open>
  \<^verbatim>\<open>Buffer.from(a)\<close>, the length test and \<^verbatim>\<open>timingSafeEqual\<close>: on strings of 8-bit characters
  the buffers are equal exactly when the strings are.
\<close>

definition timingSafeCompare :: "string \<Rightarrow> string \<Rightarrow> bool" where
  "timingSafeCompare a b = (if length a \<noteq> length b then False else a = b)"

text \<open>
  \<^verbatim>\<open>parseInt(s, 10)\<close>: leading white space is skipped, then an optional sign, then the longest
  run of decimal digits; with no digit the result is \<^verbatim>\<open>NaN\<close> (\<open>None\<close>).  The value is the exact
  integer; the program rounds it to a double, which changes no comparison against a clock
  value below \<open>2 ^ 53\<close>.
\<close>

definition parseInt10 :: "string \<Rightarrow> int option" where
  "parseInt10 s =
     (let t = dropWhile isWhiteSpace s;
          neg = (t \<noteq> [] \<and> hd t = CHR ''-'');
          u = (if t \<noteq> [] \<and> (hd t = CHR ''-'' \<or> hd t = CHR ''+'') then tl t else t);
          ds = takeWhile is_digit u
      in if ds = [] then None
         else Some (if neg then - int (digits_val ds) else int (digits_val ds)))"

definition MAX_REQUEST_AGE_SECONDS :: int where
  "MAX_REQUEST_AGE_SECONDS = 60 * 5"

text \<open>
  \<^verbatim>\<open>slackAdapter.validate\<close>.  \<open>hmac\<close> is \<^verbatim>\<open>createHmac('sha256', secret).update(msg).digest('hex')\<close>
  as a function of the secret and the message; \<open>now\<close> is \<^verbatim>\<open>Math.floor(Date.now() / 1000)\<close>.
  A timestamp that parses to \<^verbatim>\<open>NaN\<close> passes the age test, since \<^verbatim>\<open>NaN > 300\<close> is false.
\<close>

definition slack_validate :: "(string \<Rightarrow> string \<Rightarrow> string) \<Rightarrow> int \<Rightarrow> request \<Rightarrow> string \<Rightarrow> bool" where
  "slack_validate hmac now req secret =
     (let timestamp = headers req ''X-Slack-Request-Timestamp'';
          signature = headers req ''X-Slack-Signature''
      in if falsy timestamp \<or> falsy signature then False
         else
           (let too_old = (case parseInt10 (the timestamp) of
                             None \<Rightarrow> False
                           | Some requestTimestamp \<Rightarrow>
                               \<bar>now - requestTimestamp\<bar> > MAX_REQUEST_AGE_SECONDS)
            in if too_old then False
               else
                 (let sigBaseString = ''v0:'' @ the timestamp @ '':'' @ body req;
                      expectedSignature = ''v0='' @ hmac secret sigBaseString
                  in timingSafeCompare (the signature) expectedSignature)))"

text \<open>\<^verbatim>\<open>githubAdapter.validate\<close>.\<close>

definition github_validate :: "(string \<Rightarrow> string \<Rightarrow> string) \<Rightarrow> request \<Rightarrow> string \<Rightarrow> bool" where
  "github_validate hmac req secret =
     (let signature = headers req ''X-Hub-Signature-256''
      in if falsy signature then False
         else
           (let expectedSignature = ''sha256='' @ hmac secret (body req)
            in timingSafeCompare (the signature) expectedSignature))"

text \<open>
  \<^verbatim>\<open>agentmailAdapter.validate\<close>: the body of the function is \<^verbatim>\<open>return true;\<close>, the signature check
  after it is commented out.
\<close>

definition agentmail_validate :: "request \<Rightarrow> string \<Rightarrow> bool" where
  "agentmail_validate req secret = True"


text \<open>\<^verbatim>\<open>headers.get(name) || dflt\<close>.\<close>

definition header_or :: "request \<Rightarrow> string \<Rightarrow> string \<Rightarrow> string" where
  "header_or req name dflt = (if falsy (headers req name) then dflt else the (headers req name))"

text \<open>
  The four adapters.  \<open>json\<close> is \<^verbatim>\<open>request.json()\<close> as a function of the body: the parsed tree,
  or the error it throws.
\<close>

definition slackAdapter ::
  "(string \<Rightarrow> string \<Rightarrow> string) \<Rightarrow> int \<Rightarrow> (string \<Rightarrow> js_error + 'n jsvalue) \<Rightarrow> 'n SourceAdapter" where
  "slackAdapter hmac now json =
     \<lparr> adapter_name = ''slack'',
       validate = slack_validate hmac now,
       getEventType = (\<lambda>req. header_or req ''X-Slack-Event-Type'' ''unknown''),
       parsePayload = (\<lambda>req. json (body req)) \<rparr>"

definition githubAdapter ::
  "(string \<Rightarrow> string \<Rightarrow> string) \<Rightarrow> (string \<Rightarrow> js_error + 'n jsvalue) \<Rightarrow> 'n SourceAdapter" where
  "githubAdapter hmac json =
     \<lparr> adapter_name = ''github'',
       validate = github_validate hmac,
       getEventType = (\<lambda>req. header_or req ''X-GitHub-Event'' ''unknown''),
       parsePayload = (\<lambda>req. json (body req)) \<rparr>"

definition agentmailAdapter :: "(string \<Rightarrow> js_error + 'n jsvalue) \<Rightarrow> 'n SourceAdapter" where
  "agentmailAdapter json =
     \<lparr> adapter_name = ''agentmail'',
       validate = agentmail_validate,
       getEventType = (\<lambda>req. ''unknown''),
       parsePayload = (\<lambda>req. json (body req)) \<rparr>"






section \<open>Executor (executor.ts)\<close>










section \<open>Dispatcher (routes/webhook.ts)\<close>







section \<open>Scheduler (cron/scheduler.ts)\<close>

text \<open>
  A \<^verbatim>\<open>ScheduledTask\<close> of node-cron: the automation and schedule its callback was created with,
  and whether it is still running.  The tasks ever created are kept in a list, and the handle
  of a task is its position there; \<^verbatim>\<open>scheduledTasks\<close> is the \<^verbatim>\<open>Map\<close> from automation ids to
  handles, in insertion order.
\<close>

record task =
  task_automation :: Automation
  task_schedule :: string
  running :: bool

record scheduler =
  scheduledTasks :: "(string \<times> nat) list"
  tasks :: "task list"

definition initial_scheduler :: scheduler where
  "initial_scheduler = \<lparr> scheduledTasks = [], tasks = [] \<rparr>"

text \<open>\<^verbatim>\<open>task.stop()\<close>.\<close>

definition stop_task :: "nat \<Rightarrow> task list \<Rightarrow> task list" where
  "stop_task h ts = (if h < length ts then ts[h := (ts ! h)\<lparr>running := False\<rparr>] else ts)"

text \<open>
  \<^verbatim>\<open>registerCronJob\<close>.  \<open>cron_validate\<close> is \<^verbatim>\<open>cron.validate\<close>; \<^verbatim>\<open>cron.schedule\<close> creates a running task.
  The result is the returned flag and the state after the call.
\<close>

definition registerCronJob :: "(string \<Rightarrow> bool) \<Rightarrow> Automation \<Rightarrow> scheduler \<Rightarrow> bool \<times> scheduler" where
  "registerCronJob cron_validate automation s =
     (if \<not> isCronSource (auto_source automation) then (False, s)
      else
        (let schedule = source_schedule (auto_source automation)
         in if \<not> cron_validate schedule then (False, s)
            else
              (let s1 = (case map_of (scheduledTasks s) (auto_id automation) of
                           Some existingTask \<Rightarrow>
                             s\<lparr> tasks := stop_task existingTask (tasks s),
                                scheduledTasks := AList.delete (auto_id automation) (scheduledTasks s) \<rparr>
                         | None \<Rightarrow> s);
                   new_task = length (tasks s1);
                   s2 = s1\<lparr> tasks := tasks s1 @ [\<lparr> task_automation = automation,
                                                   task_schedule = schedule,
                                                   running = True \<rparr>] \<rparr>
               in (True, s2\<lparr> scheduledTasks :=
                               AList.update (auto_id automation) new_task (scheduledTasks s2) \<rparr>))))"

definition unregisterCronJob :: "string \<Rightarrow> scheduler \<Rightarrow> bool \<times> scheduler" where
  "unregisterCronJob automationId' s =
     (case map_of (scheduledTasks s) automationId' of
        Some t \<Rightarrow>
          (True, s\<lparr> tasks := stop_task t (tasks s),
                    scheduledTasks := AList.delete automationId' (scheduledTasks s) \<rparr>)
      | None \<Rightarrow> (False, s))"

definition stopAllCronJobs :: "scheduler \<Rightarrow> scheduler" where
  "stopAllCronJobs s =
     s\<lparr> tasks := fold stop_task (map snd (scheduledTasks s)) (tasks s), scheduledTasks := [] \<rparr>"

definition getActiveCronJobs :: "scheduler \<Rightarrow> string list" where
  "getActiveCronJobs s = map fst (scheduledTasks s)"

text \<open>
  The two iterations of \<^verbatim>\<open>syncCronJobs\<close>: over the keys of the map (each key present at the start is
  visited once), and over the cron automations of the catalog.
\<close>

fun remove_stale :: "string list \<Rightarrow> string list \<Rightarrow> scheduler \<Rightarrow> scheduler" where
  "remove_stale cronIds [] s = s"
| "remove_stale cronIds (i # ids) s =
     (if i \<notin> set cronIds then remove_stale cronIds ids (snd (unregisterCronJob i s))
      else remove_stale cronIds ids s)"

fun register_all ::
  "(string \<Rightarrow> bool) \<Rightarrow> Automation list \<Rightarrow> nat \<times> nat \<times> scheduler \<Rightarrow> nat \<times> nat \<times> scheduler" where
  "register_all cron_validate [] acc = acc"
| "register_all cron_validate (automation # rest) (registered, failed, s) =
     (case registerCronJob cron_validate automation s of
        (True, s') \<Rightarrow> register_all cron_validate rest (registered + 1, failed, s')
      | (False, s') \<Rightarrow> register_all cron_validate rest (registered, failed + 1, s'))"

text \<open>
  \<^verbatim>\<open>syncCronJobs\<close>: the result is the pair of counters and the state after the run; a catalog
  that cannot be loaded leaves the state as it is.
\<close>

definition syncCronJobs ::
  "(string \<Rightarrow> bool) \<Rightarrow> (js_error + Automation list) \<Rightarrow> scheduler \<Rightarrow> (nat \<times> nat) \<times> scheduler" where
  "syncCronJobs cron_validate load s =
     (case load of
        Inl e \<Rightarrow> ((0, 0), s)
      | Inr automations \<Rightarrow>
         (let cronAutomations = filter (\<lambda>a. isCronSource (auto_source a)) automations;
              cronIds = map auto_id cronAutomations;
              s1 = remove_stale cronIds (map fst (scheduledTasks s)) s;
              (registered, failed, s2) = register_all cron_validate cronAutomations (0, 0, s1)
          in ((registered, failed), s2)))"

text \<open>
  The running timers of an automation id, and the timer the live-set holds for it.
\<close>

definition active_timers :: "scheduler \<Rightarrow> string \<Rightarrow> nat list" where
  "active_timers s i =
     filter (\<lambda>h. running (tasks s ! h) \<and> auto_id (task_automation (tasks s ! h)) = i)
            [0 ..< length (tasks s)]"

text \<open>
  The invariant of the live-set: the map has one entry for a key; each entry is the handle of
  a running task created for that id; and every running task is the one the map holds for the
  id of its automation.
\<close>

definition live_set_ok :: "scheduler \<Rightarrow> bool" where
  "live_set_ok s \<longleftrightarrow>
     distinct (map fst (scheduledTasks s)) \<and>
     list_all (\<lambda>(i, h). h < length (tasks s) \<and> running (tasks s ! h) \<and>
                        auto_id (task_automation (tasks s ! h)) = i) (scheduledTasks s) \<and>
     list_all (\<lambda>h. running (tasks s ! h) \<longrightarrow>
                    map_of (scheduledTasks s) (auto_id (task_automation (tasks s ! h))) = Some h)
              [0 ..< length (tasks s)]"

text \<open>A cron automation whose schedule passes validation.\<close>

definition valid_cron :: "(string \<Rightarrow> bool) \<Rightarrow> Automation \<Rightarrow> bool" where
  "valid_cron v a \<longleftrightarrow> isCronSource (auto_source a) \<and> v (source_schedule (auto_source a))"

text \<open>The same invariant on the two components of the state, with the map read by lookup.\<close>

definition inv_c :: "(string \<times> nat) list \<Rightarrow> task list \<Rightarrow> bool" where
  "inv_c st ts \<longleftrightarrow>
     distinct (map fst st) \<and>
     (\<forall>i h. map_of st i = Some h \<longrightarrow>
        h < length ts \<and> running (ts ! h) \<and> auto_id (task_automation (ts ! h)) = i) \<and>
     (\<forall>h < length ts. running (ts ! h) \<longrightarrow>
        map_of st (auto_id (task_automation (ts ! h))) = Some h)"


section \<open>Concrete data for examples\<close>

text \<open>
  A runtime over the integers in which no literal is a number, equality is identity of
  values, and the prototypes have a few of their standard members.  It is used only to
  evaluate the functions above on examples.
\<close>

definition demo_runtime :: "int js_runtime" where
  "demo_runtime =
     \<lparr> Number = (\<lambda>s. 0), isNaN = (\<lambda>n. True), looseEq = (\<lambda>a b. a = b), fromNat = int,
       objectPrototypeMembers = [''constructor'', ''hasOwnProperty'', ''toString'', ''valueOf''],
       arrayPrototypeMembers = [''constructor'', ''join'', ''map'', ''toString''],
       primitiveMember = (\<lambda>v k. JUndefined) \<rparr>"

definition demo_hmac :: "string \<Rightarrow> string \<Rightarrow> string" where
  "demo_hmac key msg = ''0f'' @ key @ msg"

definition demo_slack_request :: request where
  "demo_slack_request =
     \<lparr> headers = [''X-Slack-Request-Timestamp'' \<mapsto> ''1000'',
                   ''X-Slack-Signature'' \<mapsto> ''v0=0fkeyv0:1000:{}''],
       body = ''{}'' \<rparr>"

definition demo_sprite :: SpriteConfig where
  "demo_sprite = \<lparr> sprite_name = ''box'', sprite_path = ''claude'',
                    sprite_cmd = Some ''-p'', sprite_workdir = None \<rparr>"

definition demo_automation :: "string \<Rightarrow> source \<Rightarrow> Automation" where
  "demo_automation i src =
     \<lparr> auto_id = i, auto_description = None, auto_sprite = demo_sprite, auto_source = src,
       auto_match = Some [], auto_run = ''hello'' \<rparr>"












text \<open>
  A stand-in for \<^verbatim>\<open>cron.validate\<close> that accepts one expression, a cron automation with that
  schedule, the same automation with a schedule that fails validation, and the scheduler after
  a first reconciliation against a catalog that holds the valid one.
\<close>

definition demo_cron_validate :: "string \<Rightarrow> bool" where
  "demo_cron_validate schedule \<longleftrightarrow> schedule = ''0 2 * * *''"

definition demo_nightly :: Automation where
  "demo_nightly = demo_automation ''nightly'' (CronSource ''0 2 * * *'')"

definition demo_nightly_bad :: Automation where
  "demo_nightly_bad = demo_automation ''nightly'' (CronSource ''every night'')"

definition demo_scheduled :: scheduler where
  "demo_scheduled = snd (syncCronJobs demo_cron_validate (Inr [demo_nightly]) initial_scheduler)"

text \<open>A cron automation of another id whose schedule fails validation.\<close>

definition demo_broken :: Automation where
  "demo_broken = demo_automation ''broken'' (CronSource ''every night'')"

section \<open>Verified properties\<close>

subsection \<open>Path resolver\<close>

lemma split_dot_ne: "split_dot s \<noteq> []"
  by (induction s) (auto simp: Let_def)

lemma split_dot_append: "split_dot (p @ CHR ''.'' # q) = split_dot p @ split_dot q"
  by (induction p) (auto simp: Let_def split_dot_ne)

lemma split_dot_single: "CHR ''.'' \<notin> set seg \<Longrightarrow> split_dot seg = [seg]"
  by (induction seg) (auto simp: Let_def)

lemma composite_iff: "composite v \<longleftrightarrow> typeof v = ''object'' \<and> v \<noteq> JNull"
  by (cases v) auto

lemma getProperty_composite:
  "composite v \<Longrightarrow>
     getProperty rt v k = Inr (case lookup_chain rt v k of Some w \<Rightarrow> w | None \<Rightarrow> JUndefined)"
  by (cases v) (auto simp: getProperty_def)

lemma walk_step:
  "walk rt v (p # ps) =
     (if composite v
      then walk rt (case lookup_chain rt v p of Some w \<Rightarrow> w | None \<Rightarrow> JUndefined) ps
      else Inr JUndefined)"
  by (cases v) (auto simp: getProperty_def)

lemma walk_total: "\<exists>w. walk rt v ps = Inr w"
proof (induction ps arbitrary: v)
  case Nil
  then show ?case by simp
next
  case (Cons p ps)
  show ?case unfolding walk_step using Cons.IH by simp
qed

lemma walk_absent: "\<not> composite v \<Longrightarrow> ps \<noteq> [] \<Longrightarrow> walk rt v ps = Inr JUndefined"
  by (cases ps) (simp_all add: walk_step del: walk.simps(2))

lemma walk_append:
  "qs \<noteq> [] \<Longrightarrow> walk rt v ps = Inr w \<Longrightarrow> walk rt v (ps @ qs) = walk rt w qs"
proof (induction ps arbitrary: v)
  case Nil
  then show ?case by simp
next
  case (Cons p ps)
  show ?case
  proof (cases "composite v")
    case True
    with Cons show ?thesis by (simp add: walk_step del: walk.simps(2))
  next
    case False
    with Cons.prems have "w = JUndefined" by (simp add: walk_step del: walk.simps(2))
    with False Cons.prems(1) show ?thesis
      by (simp add: walk_step walk_absent del: walk.simps(2))
  qed
qed

lemma getNestedValue_dot:
  "getNestedValue rt root p = Inr v \<Longrightarrow>
     getNestedValue rt root (p @ CHR ''.'' # q) = getNestedValue rt v q"
  by (simp add: getNestedValue_def split_dot_append walk_append split_dot_ne)

text \<open>
  Claim C6, as stated, fails: a segment that is missing from the map is not always absent.
  The property read follows the prototype chain, so on the empty object the path
  \<^verbatim>\<open>__proto__\<close> resolves to \<^verbatim>\<open>Object.prototype\<close>, and on \<^verbatim>\<open>{"xs": [1]}\<close> the path \<^verbatim>\<open>xs.__proto__.length\<close>
  resolves to the length of \<^verbatim>\<open>Array.prototype\<close>, which is 0; neither key is an own property.
\<close>

theorem missing_own_segment_not_absent:
  "own_property demo_runtime (JObj []) ''__proto__'' = None \<and>
   getNestedValue demo_runtime (JObj []) ''__proto__'' = Inr JObjectPrototype \<and>
   own_property demo_runtime (JArr [JNum 1]) ''__proto__'' = None \<and>
   getNestedValue demo_runtime (JObj [(''xs'', JArr [JNum 1])]) ''xs.__proto__.length'' = Inr (JNum 0)"
  by code_simp


text \<open>
  Claim C6, amended.  \<open>getNestedValue\<close> returns a value for every root and every path: it never
  raises, although the property read it uses throws on \<^verbatim>\<open>null\<close> and \<^verbatim>\<open>undefined\<close>.  It splits the
  path at the dots.  A path of one segment reads the property of the root when the root is a
  composite value (object-typed and not \<^verbatim>\<open>null\<close>) and is absent (\<open>JUndefined\<close>) otherwise; a path
  \<open>p.q\<close> resolves \<open>q\<close> in what \<open>p\<close> resolves to.  When \<open>p\<close> resolves to a value that is not
  composite (a scalar, a function, \<^verbatim>\<open>null\<close> or absent), every path \<open>p.q\<close> is absent, whatever the
  suffix \<open>q\<close>; and a segment that is found neither among the own properties of a composite
  value nor along its prototype chain is absent, with every suffix.
\<close>

theorem getNestedValue_absent_suffix:
  "(\<exists>v. getNestedValue rt root path = Inr v) \<and>
   (CHR ''.'' \<notin> set seg \<longrightarrow>
      getNestedValue rt root seg = (if composite root then getProperty rt root seg else Inr JUndefined)) \<and>
   (getNestedValue rt root p = Inr v \<longrightarrow>
      getNestedValue rt root (p @ ''.'' @ q) = getNestedValue rt v q) \<and>
   (getNestedValue rt root p = Inr v \<and> \<not> composite v \<longrightarrow>
      getNestedValue rt root (p @ ''.'' @ q) = Inr JUndefined) \<and>
   (composite root \<and> CHR ''.'' \<notin> set seg \<and> lookup_chain rt root seg = None \<longrightarrow>
      getNestedValue rt root seg = Inr JUndefined \<and>
      getNestedValue rt root (seg @ ''.'' @ q) = Inr JUndefined)"
proof -
  have 1: "\<exists>v. getNestedValue rt root path = Inr v"
    unfolding getNestedValue_def by (rule walk_total)
  have 2: "getNestedValue rt root seg = (if composite root then getProperty rt root seg else Inr JUndefined)"
    if "CHR ''.'' \<notin> set seg"
    using that by (simp add: getNestedValue_def split_dot_single walk_step getProperty_composite
        del: walk.simps(2))
  have 3: "getNestedValue rt root (p @ ''.'' @ q) = getNestedValue rt v q"
    if "getNestedValue rt root p = Inr v" for v
    using getNestedValue_dot [OF that, of q] by simp
  have 4: "getNestedValue rt root (p @ ''.'' @ q) = Inr JUndefined"
    if "getNestedValue rt root p = Inr v" "\<not> composite v" for v
    using 3 [OF that(1)] walk_absent [OF that(2) split_dot_ne, of rt q]
    by (simp add: getNestedValue_def)
  have 5: "getNestedValue rt root seg = Inr JUndefined \<and>
      getNestedValue rt root (seg @ ''.'' @ q) = Inr JUndefined"
    if "composite root" "CHR ''.'' \<notin> set seg" "lookup_chain rt root seg = None"
  proof -
    have a: "getNestedValue rt root seg = Inr JUndefined"
      using that by (simp add: getNestedValue_def split_dot_single walk_step del: walk.simps(2))
    have "getNestedValue rt root (seg @ ''.'' @ q) = getNestedValue rt JUndefined q"
      using getNestedValue_dot [OF a, of q] by simp
    also have "\<dots> = Inr JUndefined"
      using walk_absent [OF _ split_dot_ne, of JUndefined rt q] by (simp add: getNestedValue_def)
    finally show ?thesis using a by simp
  qed
  from 1 2 3 4 5 show ?thesis by blast
qed

theorem getNestedValue_absent_suffix_witness:
  "getNestedValue demo_runtime (JObj [(''user'', JStr ''ann'')]) ''user'' = Inr (JStr ''ann'') \<and>
   \<not> composite (JStr ''ann'' :: int jsvalue) \<and>
   getNestedValue demo_runtime (JObj [(''user'', JStr ''ann'')]) ''user.name.first'' = Inr JUndefined \<and>
   composite (JObj [(''user'', JStr ''ann'')] :: int jsvalue) \<and>
   CHR ''.'' \<notin> set ''login'' \<and>
   lookup_chain demo_runtime (JObj [(''user'', JStr ''ann'')]) ''login'' = None \<and>
   getNestedValue demo_runtime (JObj [(''user'', JStr ''ann'')]) ''login'' = Inr JUndefined \<and>
   getNestedValue demo_runtime (JObj [(''user'', JStr ''ann'')]) ''login.id'' = Inr JUndefined"
proof -
  let ?root = "JObj [(''user'', JStr ''ann'')] :: int jsvalue"
  have a: "getNestedValue demo_runtime ?root ''user'' = Inr (JStr ''ann'')" by code_simp
  have b: "\<not> composite (JStr ''ann'' :: int jsvalue)" by simp
  have c: "composite ?root" "CHR ''.'' \<notin> set ''login''" by simp_all
  have d: "lookup_chain demo_runtime ?root ''login'' = None" by code_simp
  note t = getNestedValue_absent_suffix [of demo_runtime ?root _ "''login''" "''user''" "JStr ''ann''"]
  have e: "getNestedValue demo_runtime ?root (''user'' @ ''.'' @ ''name.first'') = Inr JUndefined"
    using a b t [of _ "''name.first''"] by blast
  have f: "getNestedValue demo_runtime ?root ''login'' = Inr JUndefined \<and>
      getNestedValue demo_runtime ?root (''login'' @ ''.'' @ ''id'') = Inr JUndefined"
    using c d t [of _ "''id''"] by blast
  from e have e': "getNestedValue demo_runtime ?root ''user.name.first'' = Inr JUndefined" by simp
  from f have f': "getNestedValue demo_runtime ?root ''login'' = Inr JUndefined"
    "getNestedValue demo_runtime ?root ''login.id'' = Inr JUndefined" by simp_all
  show ?thesis using a b c d e' f' by blast
qed

subsection \<open>Match evaluator\<close>

lemma str_includes_iff: "str_includes s sub \<longleftrightarrow> (\<exists>p r. s = p @ sub @ r)"
proof (induction s)
  case Nil
  then show ?case by auto
next
  case (Cons c cs)
  show ?case
  proof
    assume "str_includes (c # cs) sub"
    then consider "take (length sub) (c # cs) = sub" | "str_includes cs sub" by auto
    then show "\<exists>p r. c # cs = p @ sub @ r"
    proof cases
      case 1
      then have "c # cs = [] @ sub @ drop (length sub) (c # cs)"
        by (metis append_Nil append_take_drop_id)
      then show ?thesis by blast
    next
      case 2
      then obtain p r where "cs = p @ sub @ r" using Cons.IH by blast
      then have "c # cs = (c # p) @ sub @ r" by simp
      then show ?thesis by blast
    qed
  next
    assume "\<exists>p r. c # cs = p @ sub @ r"
    then obtain p r where pr: "c # cs = p @ sub @ r" by blast
    show "str_includes (c # cs) sub"
    proof (cases p)
      case Nil
      with pr have "take (length sub) (c # cs) = sub" by simp
      then show ?thesis by simp
    next
      case (Cons a p')
      with pr have "cs = p' @ sub @ r" by simp
      then show ?thesis using Cons.IH by auto
    qed
  qed
qed

lemma str_includes_dropWhile: "str_includes (dropWhile P s) sub \<Longrightarrow> str_includes s sub"
  by (metis append.assoc str_includes_iff takeWhile_dropWhile_id)

lemma match_tail_includes: "match_tail op rest = Some g \<Longrightarrow> str_includes rest op"
proof -
  assume a: "match_tail op rest = Some g"
  then have "take (length op) (dropWhile isWhiteSpace rest) = op"
    by (auto simp: match_tail_def Let_def split: if_splits)
  then have "str_includes (dropWhile isWhiteSpace rest) op"
    by (metis append_Nil append_take_drop_id str_includes_iff)
  then show ?thesis by (rule str_includes_dropWhile)
qed

lemma lazy_prefix_includes: "lazy_prefix op acc rest = Some r \<Longrightarrow> str_includes rest op"
proof (induction rest arbitrary: acc)
  case Nil
  then show ?case by (auto split: option.splits dest: match_tail_includes)
next
  case (Cons c cs)
  then show ?case
    by (auto split: option.splits if_splits dest: match_tail_includes simp del: str_includes.simps
        simp: str_includes.simps(2))
qed

lemma regex_match_includes: "regex_match op e = Some r \<Longrightarrow> str_includes e op"
  by (auto simp: regex_match_def split: list.splits if_splits dest: lazy_prefix_includes)








text \<open>
  Claim C5.  A predicate string that contains neither \<^verbatim>\<open>!=\<close> nor \<^verbatim>\<open>==\<close> evaluates to false,
  for every context and every runtime, and does not raise: neither regular expression
  matches, so no value is resolved or compared.
\<close>

theorem no_operator_fails_closed:
  assumes "\<not> str_includes expression ''!=''" and "\<not> str_includes expression ''==''"
  shows "evaluateExpression rt expression context = Inr False"
proof -
  have "regex_match ''!='' expression = None"
    using assms(1) regex_match_includes by (cases "regex_match ''!='' expression") auto
  moreover have "regex_match ''=='' expression = None"
    using assms(2) regex_match_includes by (cases "regex_match ''=='' expression") auto
  ultimately show ?thesis by (simp add: evaluateExpression_def)
qed

theorem no_operator_fails_closed_witness:
  "\<not> str_includes ''payload.ok = 1'' ''!='' \<and> \<not> str_includes ''payload.ok = 1'' ''=='' \<and>
   evaluateExpression demo_runtime ''payload.ok = 1''
     (JObj [(''payload'', JObj [(''ok'', JBool True)])]) = Inr False"
proof -
  have a: "\<not> str_includes ''payload.ok = 1'' ''!=''" by simp
  have b: "\<not> str_includes ''payload.ok = 1'' ''==''" by simp
  show ?thesis using a b no_operator_fails_closed [OF a b] by blast
qed


subsection \<open>Source adapters\<close>

text \<open>
  Claim C1, evaluated on the code.  The claim asks \<^verbatim>\<open>agentmailAdapter.validate\<close> to return false
  for a request without the \<^verbatim>\<open>X-Agentmail-Signature\<close> header.  The function returns true for it
  (and for every request), while the GitHub adapter, which has the same check in force,
  rejects the same request.
\<close>

theorem agentmail_validate_accepts_unsigned:
  "headers \<lparr> headers = Map.empty, body = ''{}'' \<rparr> ''X-Agentmail-Signature'' = None \<and>
   agentmail_validate \<lparr> headers = Map.empty, body = ''{}'' \<rparr> ''secret'' = True \<and>
   github_validate hmac \<lparr> headers = Map.empty, body = ''{}'' \<rparr> ''secret'' = False"
  by (simp add: agentmail_validate_def github_validate_def)

subsection \<open>Slack adapter\<close>

text \<open>
  Claim C7.  The Slack adapter rejects a request when the timestamp header or the signature
  header is missing, and rejects every request whose timestamp header reads as a number more
  than 300 seconds away from the current time, whatever signature it carries (a correct one
  included).
\<close>

theorem slack_validate_rejects_stale:
  "(headers req ''X-Slack-Request-Timestamp'' = None \<or> headers req ''X-Slack-Signature'' = None
      \<longrightarrow> slack_validate hmac now req secret = False) \<and>
   (headers req ''X-Slack-Request-Timestamp'' = Some ts \<and> parseInt10 ts = Some t \<and>
    \<bar>now - t\<bar> > 300
      \<longrightarrow> slack_validate hmac now req secret = False)"
  by (auto simp: slack_validate_def Let_def MAX_REQUEST_AGE_SECONDS_def)

theorem slack_validate_rejects_stale_witness:
  "headers demo_slack_request ''X-Slack-Request-Timestamp'' = Some ''1000'' \<and>
   parseInt10 ''1000'' = Some 1000 \<and> \<bar>1301 - 1000\<bar> > (300::int) \<and>
   headers demo_slack_request ''X-Slack-Signature''
      = Some (''v0='' @ demo_hmac ''key'' (''v0:'' @ ''1000'' @ '':'' @ body demo_slack_request)) \<and>
   slack_validate demo_hmac 1300 demo_slack_request ''key'' = True \<and>
   slack_validate demo_hmac 1301 demo_slack_request ''key'' = False"
proof -
  have a: "headers demo_slack_request ''X-Slack-Request-Timestamp'' = Some ''1000''"
    by (simp add: demo_slack_request_def)
  have b: "parseInt10 ''1000'' = Some 1000" by code_simp
  have c: "\<bar>1301 - 1000\<bar> > (300::int)" by simp
  have d: "slack_validate demo_hmac 1301 demo_slack_request ''key'' = False"
    using a b c slack_validate_rejects_stale [of demo_slack_request demo_hmac 1301 "''key''" "''1000''" 1000]
    by blast
  have sig_ok: "headers demo_slack_request ''X-Slack-Signature''
      = Some (''v0='' @ demo_hmac ''key'' (''v0:'' @ ''1000'' @ '':'' @ body demo_slack_request))"
    by (simp add: demo_slack_request_def demo_hmac_def)
  have fresh_ok: "slack_validate demo_hmac 1300 demo_slack_request ''key'' = True"
    by code_simp
  show ?thesis using a b c d sig_ok fresh_ok by blast
qed

subsection \<open>Executor\<close>











subsection \<open>Dispatcher\<close>









subsection \<open>Scheduler\<close>

lemma live_set_ok_iff: "live_set_ok s \<longleftrightarrow> inv_c (scheduledTasks s) (tasks s)"
proof -
  have "distinct (map fst (scheduledTasks s)) \<Longrightarrow>
     list_all (\<lambda>(i, h). h < length (tasks s) \<and> running (tasks s ! h) \<and>
                        auto_id (task_automation (tasks s ! h)) = i) (scheduledTasks s)
     \<longleftrightarrow> (\<forall>i h. map_of (scheduledTasks s) i = Some h \<longrightarrow>
        h < length (tasks s) \<and> running (tasks s ! h) \<and> auto_id (task_automation (tasks s ! h)) = i)"
    by (auto simp: list_all_iff dest: map_of_SomeD)
  then show ?thesis
    unfolding live_set_ok_def inv_c_def by (auto simp: list_all_iff)
qed

lemma inv_c_delete:
  assumes "inv_c st ts" and "map_of st i = Some h"
  shows "inv_c (AList.delete i st) (stop_task h ts)"
proof -
  from assms have h: "h < length ts" "auto_id (task_automation (ts ! h)) = i"
    by (auto simp: inv_c_def)
  have len: "length (stop_task h ts) = length ts" by (simp add: stop_task_def)
  have other: "\<And>k. k \<noteq> h \<Longrightarrow> stop_task h ts ! k = ts ! k" by (simp add: stop_task_def)
  have stopped: "\<not> running (stop_task h ts ! h)" using h(1) by (simp add: stop_task_def)
  have d: "distinct (map fst (AList.delete i st))"
    using assms(1) by (simp add: inv_c_def distinct_delete)
  have e: "h' < length (stop_task h ts) \<and> running (stop_task h ts ! h') \<and>
           auto_id (task_automation (stop_task h ts ! h')) = j"
    if "map_of (AList.delete i st) j = Some h'" for j h'
  proof -
    from that have jk: "j \<noteq> i" "map_of st j = Some h'"
      by (auto simp: delete_conv' split: if_splits)
    with assms(1) have k: "h' < length ts" "running (ts ! h')"
      "auto_id (task_automation (ts ! h')) = j"
      by (auto simp: inv_c_def)
    with jk h have "h' \<noteq> h" by auto
    with k show ?thesis by (simp add: len other)
  qed
  have f: "map_of (AList.delete i st) (auto_id (task_automation (stop_task h ts ! k))) = Some k"
    if "k < length (stop_task h ts)" "running (stop_task h ts ! k)" for k
  proof -
    from that stopped have kh: "k \<noteq> h" by auto
    with that have k: "k < length ts" "running (ts ! k)" by (simp_all add: len other)
    with assms(1) have m: "map_of st (auto_id (task_automation (ts ! k))) = Some k"
      by (simp add: inv_c_def)
    with assms(2) kh have "auto_id (task_automation (ts ! k)) \<noteq> i" by auto
    with m kh show ?thesis by (simp add: delete_conv' other)
  qed
  show ?thesis unfolding inv_c_def using d e f by blast
qed

lemma inv_c_add:
  assumes "inv_c st ts" and "map_of st (auto_id a) = None"
  shows "inv_c (AList.update (auto_id a) (length ts) st)
               (ts @ [\<lparr> task_automation = a, task_schedule = sch, running = True \<rparr>])"
proof -
  let ?t = "\<lparr> task_automation = a, task_schedule = sch, running = True \<rparr>"
  have d: "distinct (map fst (AList.update (auto_id a) (length ts) st))"
    using assms(1) by (simp add: inv_c_def distinct_update)
  have e: "h' < length (ts @ [?t]) \<and> running ((ts @ [?t]) ! h') \<and>
           auto_id (task_automation ((ts @ [?t]) ! h')) = j"
    if "map_of (AList.update (auto_id a) (length ts) st) j = Some h'" for j h'
  proof (cases "j = auto_id a")
    case True
    with that have "h' = length ts" by (simp add: update_conv')
    with True show ?thesis by simp
  next
    case False
    with that have "map_of st j = Some h'" by (simp add: update_conv')
    with assms(1) have "h' < length ts" "running (ts ! h')" "auto_id (task_automation (ts ! h')) = j"
      by (auto simp: inv_c_def)
    then show ?thesis by (simp add: nth_append)
  qed
  have f: "map_of (AList.update (auto_id a) (length ts) st)
             (auto_id (task_automation ((ts @ [?t]) ! k))) = Some k"
    if "k < length (ts @ [?t])" "running ((ts @ [?t]) ! k)" for k
  proof (cases "k = length ts")
    case True
    then show ?thesis by (simp add: update_conv')
  next
    case False
    with that have k: "k < length ts" "running (ts ! k)" by (simp_all add: nth_append)
    with assms(1) have m: "map_of st (auto_id (task_automation (ts ! k))) = Some k"
      by (simp add: inv_c_def)
    with assms(2) have "auto_id (task_automation (ts ! k)) \<noteq> auto_id a" by auto
    with m k show ?thesis by (simp add: update_conv' nth_append)
  qed
  show ?thesis unfolding inv_c_def using d e f by blast
qed

lemma inv_c_delete_None:
  "inv_c st ts \<Longrightarrow> map_of st i = Some h \<Longrightarrow> map_of (AList.delete i st) i = None"
  by (simp add: delete_conv')

lemma live_set_ok_unregister:
  assumes "live_set_ok s" shows "live_set_ok (snd (unregisterCronJob i s))"
proof (cases "map_of (scheduledTasks s) i")
  case None
  with assms show ?thesis by (simp add: unregisterCronJob_def)
next
  case (Some h)
  with assms show ?thesis
    by (simp add: unregisterCronJob_def live_set_ok_iff inv_c_delete)
qed

lemma live_set_ok_register:
  assumes "live_set_ok s" shows "live_set_ok (snd (registerCronJob v a s))"
proof (cases "isCronSource (auto_source a) \<and> v (source_schedule (auto_source a))")
  case False
  with assms show ?thesis by (auto simp: registerCronJob_def)
next
  case True
  show ?thesis
  proof (cases "map_of (scheduledTasks s) (auto_id a)")
    case None
    with assms True show ?thesis
      by (simp add: registerCronJob_def live_set_ok_iff inv_c_add Let_def)
  next
    case (Some h)
    from assms Some have "inv_c (AList.delete (auto_id a) (scheduledTasks s)) (stop_task h (tasks s))"
      by (simp add: live_set_ok_iff inv_c_delete)
    moreover have "map_of (AList.delete (auto_id a) (scheduledTasks s)) (auto_id a) = None"
      by (simp add: delete_conv')
    ultimately show ?thesis
      using True Some by (simp add: registerCronJob_def live_set_ok_iff inv_c_add Let_def)
  qed
qed


lemma fold_stop_task_length: "length (fold stop_task hs ts) = length ts"
  by (induction hs arbitrary: ts) (simp_all add: stop_task_def)

lemma fold_stop_task_running:
  "k < length ts \<Longrightarrow> running (fold stop_task hs ts ! k) \<longleftrightarrow> running (ts ! k) \<and> k \<notin> set hs"
proof (induction hs arbitrary: ts)
  case Nil
  then show ?case by simp
next
  case (Cons h hs)
  have "length (stop_task h ts) = length ts" by (simp add: stop_task_def)
  with Cons have "running (fold stop_task hs (stop_task h ts) ! k)
      \<longleftrightarrow> running (stop_task h ts ! k) \<and> k \<notin> set hs" by simp
  moreover have "running (stop_task h ts ! k) \<longleftrightarrow> running (ts ! k) \<and> k \<noteq> h"
    using Cons.prems by (auto simp: stop_task_def nth_list_update)
  ultimately show ?case by auto
qed

lemma live_set_ok_stopAll:
  assumes "live_set_ok s" shows "live_set_ok (stopAllCronJobs s)"
proof -
  have "\<not> running (fold stop_task (map snd (scheduledTasks s)) (tasks s) ! k)"
    if "k < length (tasks s)" for k
  proof
    assume "running (fold stop_task (map snd (scheduledTasks s)) (tasks s) ! k)"
    with that have r: "running (tasks s ! k)" and n: "k \<notin> set (map snd (scheduledTasks s))"
      by (simp_all add: fold_stop_task_running)
    from assms that r have "map_of (scheduledTasks s) (auto_id (task_automation (tasks s ! k))) = Some k"
      by (simp add: live_set_ok_iff inv_c_def)
    then have "k \<in> snd ` set (scheduledTasks s)" by (metis map_of_SomeD snd_conv image_eqI)
    with n show False by simp
  qed
  then show ?thesis
    by (simp add: live_set_ok_iff stopAllCronJobs_def inv_c_def fold_stop_task_length)
qed

lemma live_set_ok_remove_stale:
  "live_set_ok s \<Longrightarrow> live_set_ok (remove_stale cronIds ids s)"
  by (induction ids arbitrary: s) (simp_all add: live_set_ok_unregister)

lemma live_set_ok_register_all:
  "live_set_ok s \<Longrightarrow> live_set_ok (snd (snd (register_all v as (r, f, s))))"
proof (induction as arbitrary: r f s)
  case Nil
  then show ?case by simp
next
  case (Cons a as)
  obtain ok s' where reg: "registerCronJob v a s = (ok, s')" by (cases "registerCronJob v a s")
  with Cons.prems live_set_ok_register [of s v a] have "live_set_ok s'" by simp
  with Cons.IH reg show ?case by (cases ok) simp_all
qed

lemma live_set_ok_sync:
  assumes "live_set_ok s" shows "live_set_ok (snd (syncCronJobs v load s))"
proof (cases load)
  case (Inl e)
  with assms show ?thesis by (simp add: syncCronJobs_def)
next
  case (Inr automations)
  let ?cron = "filter (\<lambda>a. isCronSource (auto_source a)) automations"
  let ?s1 = "remove_stale (map auto_id ?cron) (map fst (scheduledTasks s)) s"
  have "live_set_ok ?s1" using assms by (rule live_set_ok_remove_stale)
  then have "live_set_ok (snd (snd (register_all v ?cron (0, 0, ?s1))))"
    by (rule live_set_ok_register_all)
  with Inr show ?thesis
    by (simp add: syncCronJobs_def Let_def case_prod_beta)
qed

lemma filter_upt_single: "h < n \<Longrightarrow> filter (\<lambda>k. k = h) [0 ..< n] = [h]"
  by (induction n) (auto simp: less_Suc_eq)

lemma active_timers_live:
  assumes "live_set_ok s"
  shows "active_timers s i = (case map_of (scheduledTasks s) i of Some h \<Rightarrow> [h] | None \<Rightarrow> [])"
proof (cases "map_of (scheduledTasks s) i")
  case None
  have "\<not> (running (tasks s ! h) \<and> auto_id (task_automation (tasks s ! h)) = i)"
    if "h < length (tasks s)" for h
    using assms that None by (auto simp: live_set_ok_iff inv_c_def)
  then have "active_timers s i = []"
    unfolding active_timers_def by (simp add: filter_empty_conv)
  with None show ?thesis by simp
next
  case (Some h)
  with assms have h: "h < length (tasks s)" "running (tasks s ! h)"
    "auto_id (task_automation (tasks s ! h)) = i"
    unfolding live_set_ok_iff inv_c_def by blast+
  have inv: "inv_c (scheduledTasks s) (tasks s)" using assms by (simp add: live_set_ok_iff)
  have "(running (tasks s ! k) \<and> auto_id (task_automation (tasks s ! k)) = i) \<longleftrightarrow> k = h"
    if "k \<in> set [0 ..< length (tasks s)]" for k
  proof
    assume a: "running (tasks s ! k) \<and> auto_id (task_automation (tasks s ! k)) = i"
    from that have "k < length (tasks s)" by simp
    with inv a have "map_of (scheduledTasks s) i = Some k" unfolding inv_c_def by blast
    with Some show "k = h" by simp
  next
    assume "k = h"
    with h show "running (tasks s ! k) \<and> auto_id (task_automation (tasks s ! k)) = i" by simp
  qed
  then have "active_timers s i = filter (\<lambda>k. k = h) [0 ..< length (tasks s)]"
    unfolding active_timers_def by (intro filter_cong refl)
  also have "\<dots> = [h]" using h(1) by (rule filter_upt_single)
  finally show ?thesis using Some by simp
qed

lemma active_timers_count:
  assumes "live_set_ok s"
  shows "length (active_timers s i) = (if i \<in> set (getActiveCronJobs s) then 1 else 0)"
proof (cases "map_of (scheduledTasks s) i")
  case None
  then have "i \<notin> set (getActiveCronJobs s)"
    by (simp add: getActiveCronJobs_def map_of_eq_None_iff)
  with None assms show ?thesis by (simp add: active_timers_live)
next
  case (Some h)
  then have "(i, h) \<in> set (scheduledTasks s)" by (rule map_of_SomeD)
  then have "i \<in> set (getActiveCronJobs s)" by (force simp: getActiveCronJobs_def)
  with Some assms show ?thesis by (simp add: active_timers_live)
qed

lemma register_valid:
  assumes "isCronSource (auto_source a)" and "v (source_schedule (auto_source a))"
  shows "fst (registerCronJob v a s) = True \<and>
         map_of (scheduledTasks (snd (registerCronJob v a s))) (auto_id a) = Some (length (tasks s)) \<and>
         length (tasks (snd (registerCronJob v a s))) = Suc (length (tasks s)) \<and>
         task_automation (tasks (snd (registerCronJob v a s)) ! length (tasks s)) = a \<and>
         (\<forall>h. map_of (scheduledTasks s) (auto_id a) = Some h \<and> h < length (tasks s) \<longrightarrow>
               \<not> running (tasks (snd (registerCronJob v a s)) ! h))"
proof (cases "map_of (scheduledTasks s) (auto_id a)")
  case None
  with assms show ?thesis
    by (simp add: registerCronJob_def Let_def update_conv')
next
  case (Some h)
  have len: "length (stop_task h (tasks s)) = length (tasks s)" by (simp add: stop_task_def)
  from assms Some show ?thesis
    by (simp add: registerCronJob_def Let_def update_conv' len nth_append) (simp add: stop_task_def)
qed

lemma register_invalid:
  "\<not> (isCronSource (auto_source a) \<and> v (source_schedule (auto_source a))) \<Longrightarrow>
     registerCronJob v a s = (False, s)"
  by (auto simp: registerCronJob_def)


lemma live_set_ok_initial: "live_set_ok initial_scheduler"
  by (simp add: live_set_ok_def initial_scheduler_def)

lemma register_twice:
  assumes "live_set_ok s" and "isCronSource (auto_source a)" and "v (source_schedule (auto_source a))"
  shows "active_timers (snd (registerCronJob v a s)) (auto_id a) = [length (tasks s)]"
    and "active_timers (snd (registerCronJob v a (snd (registerCronJob v a s)))) (auto_id a)
           = [Suc (length (tasks s))]"
    and "\<not> running (tasks (snd (registerCronJob v a (snd (registerCronJob v a s)))) ! length (tasks s))"
proof -
  let ?s1 = "snd (registerCronJob v a s)"
  let ?s2 = "snd (registerCronJob v a ?s1)"
  have ok1: "live_set_ok ?s1" using assms(1) by (rule live_set_ok_register)
  have ok2: "live_set_ok ?s2" using ok1 by (rule live_set_ok_register)
  note r1 = register_valid [where v = v and a = a and s = s, OF assms(2,3)]
  note r2 = register_valid [where v = v and a = a and s = ?s1, OF assms(2,3)]
  from r1 have m1: "map_of (scheduledTasks ?s1) (auto_id a) = Some (length (tasks s))" by blast
  from r1 have l1: "length (tasks ?s1) = Suc (length (tasks s))" by blast
  from r2 l1 have m2: "map_of (scheduledTasks ?s2) (auto_id a) = Some (Suc (length (tasks s)))" by simp
  show "active_timers ?s1 (auto_id a) = [length (tasks s)]"
    using ok1 m1 by (simp add: active_timers_live)
  show "active_timers ?s2 (auto_id a) = [Suc (length (tasks s))]"
    using ok2 m2 by (simp add: active_timers_live)
  from r2 m1 l1 show "\<not> running (tasks ?s2 ! length (tasks s))" by simp
qed

text \<open>
  Claim C8.  The live-set invariant (one entry for a key, each entry a running timer of that
  id, every running timer the one entered for its id) holds at the start and is preserved by
  \<open>registerCronJob\<close>, \<open>unregisterCronJob\<close>, \<open>stopAllCronJobs\<close> and \<open>syncCronJobs\<close>; under it an id has
  one running timer when it is in the live-set and none otherwise.  Registering a valid cron
  automation whose id is active stops the existing timer; after one registration the id has
  exactly one running timer, after a second one again exactly one (the replacement), and the
  first timer is stopped.
\<close>

theorem live_set_one_timer_per_id:
  "live_set_ok initial_scheduler \<and>
   (live_set_ok s \<longrightarrow>
      live_set_ok (snd (registerCronJob v a s)) \<and>
      live_set_ok (snd (unregisterCronJob i s)) \<and>
      live_set_ok (stopAllCronJobs s) \<and>
      live_set_ok (snd (syncCronJobs v load s)) \<and>
      length (active_timers s i) = (if i \<in> set (getActiveCronJobs s) then 1 else 0) \<and>
      (isCronSource (auto_source a) \<and> v (source_schedule (auto_source a)) \<longrightarrow>
         (\<forall>h. map_of (scheduledTasks s) (auto_id a) = Some h \<longrightarrow>
               \<not> running (tasks (snd (registerCronJob v a s)) ! h)) \<and>
         active_timers (snd (registerCronJob v a s)) (auto_id a) = [length (tasks s)] \<and>
         active_timers (snd (registerCronJob v a (snd (registerCronJob v a s)))) (auto_id a)
           = [Suc (length (tasks s))] \<and>
         \<not> running (tasks (snd (registerCronJob v a (snd (registerCronJob v a s)))) ! length (tasks s))))"
proof (intro conjI impI allI)
  show "live_set_ok initial_scheduler" by (rule live_set_ok_initial)
next
  assume "live_set_ok s"
  then show "live_set_ok (snd (registerCronJob v a s))" by (rule live_set_ok_register)
next
  assume "live_set_ok s"
  then show "live_set_ok (snd (unregisterCronJob i s))" by (rule live_set_ok_unregister)
next
  assume "live_set_ok s"
  then show "live_set_ok (stopAllCronJobs s)" by (rule live_set_ok_stopAll)
next
  assume "live_set_ok s"
  then show "live_set_ok (snd (syncCronJobs v load s))" by (rule live_set_ok_sync)
next
  assume "live_set_ok s"
  then show "length (active_timers s i) = (if i \<in> set (getActiveCronJobs s) then 1 else 0)"
    by (rule active_timers_count)
next
  fix h
  assume ok: "live_set_ok s"
    and c: "isCronSource (auto_source a) \<and> v (source_schedule (auto_source a))"
    and m: "map_of (scheduledTasks s) (auto_id a) = Some h"
  from ok m have "h < length (tasks s)" unfolding live_set_ok_iff inv_c_def by blast
  with m register_valid [of a v s] c show "\<not> running (tasks (snd (registerCronJob v a s)) ! h)"
    by blast
next
  assume "live_set_ok s" "isCronSource (auto_source a) \<and> v (source_schedule (auto_source a))"
  then show "active_timers (snd (registerCronJob v a s)) (auto_id a) = [length (tasks s)]"
    by (simp add: register_twice)
next
  assume "live_set_ok s" "isCronSource (auto_source a) \<and> v (source_schedule (auto_source a))"
  then show "active_timers (snd (registerCronJob v a (snd (registerCronJob v a s)))) (auto_id a)
           = [Suc (length (tasks s))]"
    by (simp add: register_twice)
next
  assume "live_set_ok s" "isCronSource (auto_source a) \<and> v (source_schedule (auto_source a))"
  then show "\<not> running (tasks (snd (registerCronJob v a (snd (registerCronJob v a s)))) ! length (tasks s))"
    by (simp add: register_twice)
qed

theorem live_set_one_timer_per_id_witness:
  "live_set_ok initial_scheduler \<and>
   isCronSource (auto_source demo_nightly) \<and>
   demo_cron_validate (source_schedule (auto_source demo_nightly)) \<and>
   live_set_ok (snd (registerCronJob demo_cron_validate demo_nightly
                  (snd (registerCronJob demo_cron_validate demo_nightly initial_scheduler)))) \<and>
   active_timers (snd (registerCronJob demo_cron_validate demo_nightly
                  (snd (registerCronJob demo_cron_validate demo_nightly initial_scheduler))))
                 (auto_id demo_nightly) = [Suc (length (tasks initial_scheduler))] \<and>
   \<not> running (tasks (snd (registerCronJob demo_cron_validate demo_nightly
                  (snd (registerCronJob demo_cron_validate demo_nightly initial_scheduler))))
               ! length (tasks initial_scheduler))"
proof -
  have a: "live_set_ok initial_scheduler" by (simp add: live_set_ok_def initial_scheduler_def)
  have b: "isCronSource (auto_source demo_nightly)"
    by (simp add: demo_nightly_def demo_automation_def)
  have c: "demo_cron_validate (source_schedule (auto_source demo_nightly))"
    by (simp add: demo_nightly_def demo_automation_def demo_cron_validate_def)
  note t1 = live_set_one_timer_per_id [of initial_scheduler demo_cron_validate demo_nightly]
  from a t1 have d: "live_set_ok (snd (registerCronJob demo_cron_validate demo_nightly initial_scheduler))"
    by blast
  note t2 = live_set_one_timer_per_id [of "snd (registerCronJob demo_cron_validate demo_nightly initial_scheduler)"
      demo_cron_validate demo_nightly]
  from d t2 have e: "live_set_ok (snd (registerCronJob demo_cron_validate demo_nightly
                  (snd (registerCronJob demo_cron_validate demo_nightly initial_scheduler))))"
    by blast
  from a b c t1 show ?thesis using e by blast
qed

lemma keys_unregister:
  "set (getActiveCronJobs (snd (unregisterCronJob i s))) = set (getActiveCronJobs s) - {i}"
proof (cases "map_of (scheduledTasks s) i")
  case None
  then have "i \<notin> set (getActiveCronJobs s)"
    by (simp add: getActiveCronJobs_def map_of_eq_None_iff)
  with None show ?thesis by (simp add: unregisterCronJob_def)
next
  case (Some h)
  then show ?thesis
    by (simp add: unregisterCronJob_def getActiveCronJobs_def delete_keys)
qed

lemma keys_remove_stale:
  "set (getActiveCronJobs (remove_stale cronIds ids s))
     = set (getActiveCronJobs s) - (set ids - set cronIds)"
  by (induction ids arbitrary: s) (auto simp: keys_unregister)

lemma keys_delete: "fst ` set (AList.delete k al) = fst ` set al - {k}"
  using delete_keys [of k al] by (metis set_map set_removeAll)

lemma keys_register:
  "set (getActiveCronJobs (snd (registerCronJob v a s)))
     = (if valid_cron v a then insert (auto_id a) (set (getActiveCronJobs s))
        else set (getActiveCronJobs s))"
proof (cases "valid_cron v a")
  case False
  then have "registerCronJob v a s = (False, s)"
    by (intro register_invalid) (simp add: valid_cron_def)
  with False show ?thesis by simp
next
  case True
  show ?thesis
  proof (cases "map_of (scheduledTasks s) (auto_id a)")
    case None
    with True show ?thesis
      by (simp add: registerCronJob_def valid_cron_def getActiveCronJobs_def Let_def dom_update)
  next
    case (Some h)
    with True show ?thesis
      by (simp add: registerCronJob_def valid_cron_def getActiveCronJobs_def Let_def dom_update
          keys_delete)
  qed
qed

lemma keys_register_all:
  "set (getActiveCronJobs (snd (snd (register_all v as (r, f, s)))))
     = set (getActiveCronJobs s) \<union> auto_id ` {a \<in> set as. valid_cron v a}"
proof (induction as arbitrary: r f s)
  case Nil
  then show ?case by simp
next
  case (Cons a as)
  obtain ok s' where reg: "registerCronJob v a s = (ok, s')" by (cases "registerCronJob v a s")
  then have k: "set (getActiveCronJobs s')
     = (if valid_cron v a then insert (auto_id a) (set (getActiveCronJobs s))
        else set (getActiveCronJobs s))"
    using keys_register [of v a s] by simp
  have "set (getActiveCronJobs (snd (snd (register_all v (a # as) (r, f, s)))))
      = set (getActiveCronJobs s') \<union> auto_id ` {a \<in> set as. valid_cron v a}"
    using reg Cons.IH by (cases ok) simp_all
  with k show ?case by auto
qed

lemma sync_state:
  "snd (syncCronJobs v (Inr automations) s)
     = snd (snd (register_all v (filter (\<lambda>a. isCronSource (auto_source a)) automations)
          (0, 0, remove_stale (map auto_id (filter (\<lambda>a. isCronSource (auto_source a)) automations))
                    (map fst (scheduledTasks s)) s)))"
  by (simp add: syncCronJobs_def Let_def case_prod_beta)

lemma keys_sync:
  "set (getActiveCronJobs (snd (syncCronJobs v (Inr catalog) s)))
     = (set (getActiveCronJobs s) \<inter> auto_id ` {a \<in> set catalog. isCronSource (auto_source a)})
       \<union> auto_id ` {a \<in> set catalog. valid_cron v a}"
proof -
  have "{a \<in> set (filter (\<lambda>a. isCronSource (auto_source a)) catalog). valid_cron v a}
      = {a \<in> set catalog. valid_cron v a}"
    by (auto simp: valid_cron_def)
  then show ?thesis
    unfolding sync_state keys_register_all keys_remove_stale
    by (auto simp: getActiveCronJobs_def)
qed

text \<open>
  Claim C9, as stated, fails.  The live-set holds a timer for the id \<^verbatim>\<open>nightly\<close> (from an earlier
  reconciliation); the catalog now holds that automation with a schedule that fails
  validation.  After \<open>syncCronJobs\<close> the id is still in the live-set and its old timer is still
  running: \<open>registerCronJob\<close> returns at the failed validation, before it looks at the existing
  timer, and the removal loop keeps every id that is a cron automation of the catalog.
\<close>

theorem sync_keeps_stale_timer:
  "live_set_ok demo_scheduled \<and>
   demo_nightly_bad \<in> set [demo_nightly_bad] \<and>
   isCronSource (auto_source demo_nightly_bad) \<and>
   \<not> demo_cron_validate (source_schedule (auto_source demo_nightly_bad)) \<and>
   auto_id demo_nightly_bad
     \<in> set (getActiveCronJobs (snd (syncCronJobs demo_cron_validate (Inr [demo_nightly_bad]) demo_scheduled))) \<and>
   active_timers (snd (syncCronJobs demo_cron_validate (Inr [demo_nightly_bad]) demo_scheduled))
       (auto_id demo_nightly_bad) = [0]"
  by code_simp


text \<open>
  The same holds for an id that the catalog holds twice, once with a valid and once with an
  invalid schedule: the map is keyed by id, and the id is in the live-set after the run.
\<close>

lemma sync_duplicate_id_registered:
  "isCronSource (auto_source demo_nightly_bad) \<and>
   \<not> demo_cron_validate (source_schedule (auto_source demo_nightly_bad)) \<and>
   auto_id demo_nightly_bad
     \<in> set (getActiveCronJobs
              (snd (syncCronJobs demo_cron_validate (Inr [demo_nightly, demo_nightly_bad])
                     initial_scheduler)))"
  by code_simp

text \<open>
  Claim C9, amended.  After \<open>syncCronJobs\<close> on a loaded catalog, a cron automation whose
  schedule fails validation gets no timer from the run: when its id had no timer before the
  run and no catalog entry of that id has a valid schedule, the id is not in the live-set
  afterwards and has no running timer.  Every cron automation of the catalog with a valid
  schedule is in the live-set afterwards with exactly one running timer, whatever invalid
  entries the catalog holds.
\<close>

theorem sync_invalid_schedule_gets_no_timer:
  assumes "live_set_ok s"
  shows "(\<forall>a \<in> set catalog.
            isCronSource (auto_source a) \<and> \<not> v (source_schedule (auto_source a)) \<and>
            auto_id a \<notin> set (getActiveCronJobs s) \<and>
            (\<forall>b \<in> set catalog. isCronSource (auto_source b) \<and> auto_id b = auto_id a
                 \<longrightarrow> \<not> v (source_schedule (auto_source b)))
            \<longrightarrow> auto_id a \<notin> set (getActiveCronJobs (snd (syncCronJobs v (Inr catalog) s))) \<and>
                active_timers (snd (syncCronJobs v (Inr catalog) s)) (auto_id a) = []) \<and>
         (\<forall>a \<in> set catalog.
            isCronSource (auto_source a) \<and> v (source_schedule (auto_source a))
            \<longrightarrow> auto_id a \<in> set (getActiveCronJobs (snd (syncCronJobs v (Inr catalog) s))) \<and>
                length (active_timers (snd (syncCronJobs v (Inr catalog) s)) (auto_id a)) = 1)"
proof -
  let ?s' = "snd (syncCronJobs v (Inr catalog) s)"
  have ok: "live_set_ok ?s'" using assms by (rule live_set_ok_sync)
  have count: "\<And>i. length (active_timers ?s' i) = (if i \<in> set (getActiveCronJobs ?s') then 1 else 0)"
    using ok by (rule active_timers_count)
  have 1: "auto_id a \<notin> set (getActiveCronJobs ?s') \<and> active_timers ?s' (auto_id a) = []"
    if "a \<in> set catalog" "auto_id a \<notin> set (getActiveCronJobs s)"
      "\<forall>b \<in> set catalog. isCronSource (auto_source b) \<and> auto_id b = auto_id a
                 \<longrightarrow> \<not> v (source_schedule (auto_source b))" for a
  proof -
    have "auto_id a \<notin> auto_id ` {a \<in> set catalog. valid_cron v a}"
      using that(3) by (auto simp: valid_cron_def)
    with that(2) have "auto_id a \<notin> set (getActiveCronJobs ?s')"
      unfolding keys_sync by blast
    with count [of "auto_id a"] show ?thesis by simp
  qed
  have 2: "auto_id a \<in> set (getActiveCronJobs ?s') \<and> length (active_timers ?s' (auto_id a)) = 1"
    if "a \<in> set catalog" "isCronSource (auto_source a)" "v (source_schedule (auto_source a))" for a
  proof -
    from that have "auto_id a \<in> auto_id ` {a \<in> set catalog. valid_cron v a}"
      by (auto simp: valid_cron_def)
    then have "auto_id a \<in> set (getActiveCronJobs ?s')"
      unfolding keys_sync by blast
    with count [of "auto_id a"] show ?thesis by simp
  qed
  from 1 2 show ?thesis by blast
qed

theorem sync_invalid_schedule_gets_no_timer_witness:
  "live_set_ok initial_scheduler \<and>
   isCronSource (auto_source demo_broken) \<and>
   \<not> demo_cron_validate (source_schedule (auto_source demo_broken)) \<and>
   auto_id demo_broken \<notin> set (getActiveCronJobs initial_scheduler) \<and>
   auto_id demo_broken
     \<notin> set (getActiveCronJobs
              (snd (syncCronJobs demo_cron_validate (Inr [demo_broken, demo_nightly]) initial_scheduler))) \<and>
   active_timers (snd (syncCronJobs demo_cron_validate (Inr [demo_broken, demo_nightly]) initial_scheduler))
      (auto_id demo_broken) = [] \<and>
   isCronSource (auto_source demo_nightly) \<and>
   demo_cron_validate (source_schedule (auto_source demo_nightly)) \<and>
   auto_id demo_nightly
     \<in> set (getActiveCronJobs
              (snd (syncCronJobs demo_cron_validate (Inr [demo_broken, demo_nightly]) initial_scheduler))) \<and>
   length (active_timers
             (snd (syncCronJobs demo_cron_validate (Inr [demo_broken, demo_nightly]) initial_scheduler))
             (auto_id demo_nightly)) = 1"
proof -
  have a: "live_set_ok initial_scheduler" by (simp add: live_set_ok_def initial_scheduler_def)
  have b: "isCronSource (auto_source demo_broken)"
    "\<not> demo_cron_validate (source_schedule (auto_source demo_broken))"
    "auto_id demo_broken \<notin> set (getActiveCronJobs initial_scheduler)"
    by (simp_all add: demo_broken_def demo_automation_def demo_cron_validate_def
        getActiveCronJobs_def initial_scheduler_def)
  have c: "\<forall>b \<in> set [demo_broken, demo_nightly].
             isCronSource (auto_source b) \<and> auto_id b = auto_id demo_broken
               \<longrightarrow> \<not> demo_cron_validate (source_schedule (auto_source b))"
    by (simp add: demo_broken_def demo_nightly_def demo_automation_def demo_cron_validate_def)
  have d: "isCronSource (auto_source demo_nightly)"
    "demo_cron_validate (source_schedule (auto_source demo_nightly))"
    by (simp_all add: demo_nightly_def demo_automation_def demo_cron_validate_def)
  have m: "demo_broken \<in> set [demo_broken, demo_nightly]" "demo_nightly \<in> set [demo_broken, demo_nightly]"
    by simp_all
  note t = sync_invalid_schedule_gets_no_timer [OF a, of "[demo_broken, demo_nightly]" demo_cron_validate]
  from t m(1) b c have e: "auto_id demo_broken
     \<notin> set (getActiveCronJobs
              (snd (syncCronJobs demo_cron_validate (Inr [demo_broken, demo_nightly]) initial_scheduler))) \<and>
   active_timers (snd (syncCronJobs demo_cron_validate (Inr [demo_broken, demo_nightly]) initial_scheduler))
      (auto_id demo_broken) = []"
    by blast
  from t m(2) d have f: "auto_id demo_nightly
     \<in> set (getActiveCronJobs
              (snd (syncCronJobs demo_cron_validate (Inr [demo_broken, demo_nightly]) initial_scheduler))) \<and>
   length (active_timers
             (snd (syncCronJobs demo_cron_validate (Inr [demo_broken, demo_nightly]) initial_scheduler))
             (auto_id demo_nightly)) = 1"
    by blast
  from a b d e f show ?thesis by blast
qed

end
